theory Spec2Isabelle
  imports
    Main
    "HOL-Library.Char_ord"
    "HOL-Library.List_Lexorder"
    "HOL-Library.Product_Lexorder"
    "HOL-Library.Multiset"
begin

section \<open>Python values\<close>

text \<open>
  The rows returned by the event API are dictionaries from field names to loosely typed
  values. The scripts only ever ask three things of such a value: whether it is
  \<open>None\<close>, whether it is truthy, and what \<open>str()\<close> makes of it. \<open>None\<close>, booleans,
  integers and strings are modelled exactly; \<open>POther t s\<close> stands for any other value
  (a float, a list, a nested dictionary), given by its truth value \<open>t\<close> and by the text
  \<open>s\<close> that \<open>str()\<close> returns for it. Strings are byte strings in UTF-8, whose
  lexicographic order agrees with Python's order on code points.
\<close>

datatype pyval = PNone | PBool bool | PInt int | PStr string | POther bool string

datatype error = Error string

fun truthy :: "pyval \<Rightarrow> bool" where
  "truthy PNone = False"
| "truthy (PBool b) = b"
| "truthy (PInt i) = (i \<noteq> 0)"
| "truthy (PStr s) = (s \<noteq> [])"
| "truthy (POther t s) = t"

definition py_or :: "pyval \<Rightarrow> pyval \<Rightarrow> pyval" where
  "py_or a b = (if truthy a then a else b)"

definition digit_char :: "nat \<Rightarrow> char" where
  "digit_char d = ''0123456789'' ! d"

fun str_nat :: "nat \<Rightarrow> string" where
  "str_nat n = (if n < 10 then [digit_char n] else str_nat (n div 10) @ [digit_char (n mod 10)])"

declare str_nat.simps [simp del]

definition str_int :: "int \<Rightarrow> string" where
  "str_int i = (if i < 0 then CHR ''-'' # str_nat (nat (- i)) else str_nat (nat i))"

fun py_str :: "pyval \<Rightarrow> string" where
  "py_str PNone = ''None''"
| "py_str (PBool b) = (if b then ''True'' else ''False'')"
| "py_str (PInt i) = str_int i"
| "py_str (PStr s) = s"
| "py_str (POther t s) = s"

type_synonym event = "string \<rightharpoonup> pyval"

text \<open>\<open>d.get(k)\<close>: the value stored under \<open>k\<close>, \<open>None\<close> when the key is absent.\<close>

definition dict_get :: "event \<Rightarrow> string \<Rightarrow> pyval" where
  "dict_get d k = (case d k of None \<Rightarrow> PNone | Some v \<Rightarrow> v)"

section \<open>The pager (\<open>export_unparsed_events.py\<close>)\<close>

text \<open>
  One element of the list that the SDK returns for a query or a page request: an optional
  \<open>result\<close> object holding an optional list of \<open>rows\<close>, and the attribute \<open>next\<close>.
  \<open>next r = None\<close> is a result object without that attribute (\<open>hasattr\<close> is false);
  \<open>next r = Some v\<close> carries the attribute's value, \<open>Some PNone\<close> included.
\<close>

record event_query_result =
  rows :: "event list option"

record event_query_results =
  result :: "event_query_result option"
  "next" :: "pyval option"

record event_query_options =
  timestamp_ascending :: bool
  page_size :: int
  max_rows :: int
  skip_cache :: bool
  aggregation_off :: bool

text \<open>
  The remote query client is an external collaborator. It is taken as a parameter: two
  operations over a state \<open>'s\<close> of the client's own, each answering with a list of results
  or raising (\<open>Inl\<close>), and each returning the client's next state. The first argument
  is the tenant of the enclosing \<open>with service(tenant_id=...)\<close> block;
  \<open>event_query\<close> further receives the query, the options and the caller name of the
  metadata.
\<close>

record 's graphql_service =
  event_query :: "string \<Rightarrow> 's \<Rightarrow> string \<Rightarrow> event_query_options \<Rightarrow> string
                  \<Rightarrow> (error + event_query_results list) \<times> 's"
  event_page :: "string \<Rightarrow> 's \<Rightarrow> pyval \<Rightarrow> (error + event_query_results list) \<times> 's"

fun get_next_page :: "event_query_results list \<Rightarrow> pyval" where
  "get_next_page [] = PNone"
| "get_next_page (r # events_results) =
     (case next r of
        Some c \<Rightarrow> if truthy c then c else get_next_page events_results
      | None \<Rightarrow> get_next_page events_results)"

text \<open>
  The loop \<open>for r in result_list: if r.result and r.result.rows: all_rows.extend(...)\<close>.
  A result object is truthy when it is not \<open>None\<close>, a list of rows when it is neither
  \<open>None\<close> nor empty.
\<close>

fun extend_rows :: "event list \<Rightarrow> event_query_results list \<Rightarrow> event list" where
  "extend_rows all_rows [] = all_rows"
| "extend_rows all_rows (r # result_list) =
     extend_rows
       (case result r of
          None \<Rightarrow> all_rows
        | Some res \<Rightarrow>
            (case rows res of
               None \<Rightarrow> all_rows
             | Some rws \<Rightarrow> if rws \<noteq> [] then all_rows @ rws else all_rows))
       result_list"

text \<open>
  The loop \<open>while next_page: ...\<close>. Nothing bounds the number of pages: a client that
  keeps answering with a cursor keeps the loop running, and then the value is \<open>None\<close>.
  The list \<open>results\<close> of the source is filled but never read, and is left out.
\<close>

partial_function (option) paginate ::
  "('s \<Rightarrow> pyval \<Rightarrow> (error + event_query_results list) \<times> 's) \<Rightarrow> 's \<Rightarrow> pyval \<Rightarrow> event list
     \<Rightarrow> ((error + event list) \<times> 's) option" where
  "paginate fetch s next_page all_rows =
     (if truthy next_page then
        (case fetch s next_page of
           (Inl e, s') \<Rightarrow> Some (Inl e, s')
         | (Inr page_result_list, s') \<Rightarrow>
             paginate fetch s' (get_next_page page_result_list)
               (extend_rows all_rows page_result_list))
      else Some (Inr all_rows, s))"

definition query_options :: "int \<Rightarrow> event_query_options" where
  "query_options mx_rows =
     \<lparr>timestamp_ascending = True, page_size = 1000, max_rows = mx_rows,
      skip_cache = True, aggregation_off = False\<rparr>"

definition query_events ::
  "'s graphql_service \<Rightarrow> 's \<Rightarrow> string \<Rightarrow> string \<Rightarrow> int \<Rightarrow> ((error + event list) \<times> 's) option" where
  "query_events service s query tenant_id mx_rows =
     (let options = query_options mx_rows
      in case event_query service tenant_id s query options ''export_unparsed_events'' of
           (Inl e, s') \<Rightarrow> Some (Inl e, s')
         | (Inr result_list, s') \<Rightarrow>
             paginate (event_page service tenant_id) s' (get_next_page result_list)
               (extend_rows [] result_list))"

text \<open>
  What the specification calls the rows of a page and the sequence of pages: \<open>rows_of\<close> is
  the row list of one result (empty when there is no result object or no row list),
  \<open>batch_rows\<close> the rows of one fetched batch in list order, and
  \<open>page_chain fetch s c ps s'\<close> says that following the cursor \<open>c\<close> from client state
  \<open>s\<close> fetches exactly the batches \<open>ps\<close>, each requested with the cursor of the batch
  before it, that no request raises, that the last batch fetched carries no (truthy)
  cursor, and that the client is left in state \<open>s'\<close>.
\<close>

definition rows_of :: "event_query_results \<Rightarrow> event list" where
  "rows_of r = (case result r of None \<Rightarrow> [] | Some res \<Rightarrow> (case rows res of None \<Rightarrow> [] | Some rws \<Rightarrow> rws))"

definition batch_rows :: "event_query_results list \<Rightarrow> event list" where
  "batch_rows result_list = concat (map rows_of result_list)"

fun page_chain ::
  "('s \<Rightarrow> pyval \<Rightarrow> (error + event_query_results list) \<times> 's) \<Rightarrow> 's \<Rightarrow> pyval
     \<Rightarrow> event_query_results list list \<Rightarrow> 's \<Rightarrow> bool" where
  "page_chain fetch s c [] s' = (\<not> truthy c \<and> s' = s)"
| "page_chain fetch s c (p # ps) s' =
     (truthy c \<and>
      (case fetch s c of
         (Inl e, s1) \<Rightarrow> False
       | (Inr p', s1) \<Rightarrow> p' = p \<and> page_chain fetch s1 (get_next_page p) ps s'))"

text \<open>
  The scenario of the specification's test: a client whose first answer is one result
  with two rows and the cursor \<open>"X"\<close>, and whose answer to a page request for \<open>"X"\<close>
  is one result with three rows and no cursor. A request for any other cursor raises.
\<close>

definition two_page_mock :: "event \<Rightarrow> event \<Rightarrow> event \<Rightarrow> event \<Rightarrow> event \<Rightarrow> unit graphql_service" where
  "two_page_mock r1 r2 r3 r4 r5 =
     \<lparr>event_query = (\<lambda>tenant s query options caller.
        (Inr [\<lparr>result = Some \<lparr>rows = Some [r1, r2]\<rparr>, next = Some (PStr ''X'')\<rparr>], s)),
      event_page = (\<lambda>tenant s cursor.
        (if cursor = PStr ''X''
         then Inr [\<lparr>result = Some \<lparr>rows = Some [r3, r4, r5]\<rparr>, next = Some PNone\<rparr>]
         else Inl (Error ''unknown cursor''), s))\<rparr>"

text \<open>A result whose \<open>next\<close> attribute exists and is truthy, and the attribute's value.\<close>

definition has_truthy_next :: "event_query_results \<Rightarrow> bool" where
  "has_truthy_next r = (case next r of None \<Rightarrow> False | Some c \<Rightarrow> truthy c)"

definition next_value :: "event_query_results \<Rightarrow> pyval" where
  "next_value r = (case next r of None \<Rightarrow> PNone | Some c \<Rightarrow> c)"

section \<open>The aggregator\<close>

text \<open>
  The aggregation table is a Python dictionary, which keeps its keys in insertion order:
  an association list with distinct keys. \<open>append_to_group\<close> is
  \<open>aggregated[key].append(event)\<close> on a \<open>defaultdict(list)\<close>: the event goes to the end
  of the key's list, and a key not seen yet is entered last with the one-event list.
\<close>

type_synonym group_key = "string \<times> string"

type_synonym aggregation = "(group_key \<times> event list) list"

definition group_key :: "event \<Rightarrow> group_key" where
  "group_key event =
     (let sensor_id = py_or (dict_get event ''sensor_id'') (PStr ''unknown'');
          sensor_type = py_or (dict_get event ''sensor_type'') (PStr ''unknown'');
          sensor_id_str = (if sensor_id \<noteq> PNone then py_str sensor_id else ''unknown'');
          sensor_type_str = (if sensor_type \<noteq> PNone then py_str sensor_type else ''unknown'')
      in (sensor_id_str, sensor_type_str))"

fun append_to_group :: "aggregation \<Rightarrow> group_key \<Rightarrow> event \<Rightarrow> aggregation" where
  "append_to_group [] key event = [(key, [event])]"
| "append_to_group ((k, es) # aggregated) key event =
     (if k = key then (k, es @ [event]) # aggregated
      else (k, es) # append_to_group aggregated key event)"

definition aggregate_by_sensor :: "event list \<Rightarrow> aggregation" where
  "aggregate_by_sensor events =
     foldl (\<lambda>aggregated event. append_to_group aggregated (group_key event) event) [] events"

section \<open>The selector\<close>

text \<open>
  Both \<open>display_aggregated_sources\<close> and \<open>select_log_source\<close> compute
  \<open>sorted(aggregated.items(), key=lambda x: (-len(x[1]), x[0][0], x[0][1]))\<close>. Python
  compares the key tuples lexicographically, integers by value and strings by code point,
  and its sort is stable, as \<open>sort_key\<close> is.
\<close>

definition source_sort_key :: "group_key \<times> event list \<Rightarrow> int \<times> string \<times> string" where
  "source_sort_key x = (- int (length (snd x)), fst (fst x), snd (fst x))"

definition sorted_sources :: "aggregation \<Rightarrow> aggregation" where
  "sorted_sources aggregated = sort_key source_sort_key aggregated"

text \<open>
  The ranking in the specification's words: a group ranks before another when it has
  more events, or as many and the smaller \<open>sensor_id\<close>, or as many, the same
  \<open>sensor_id\<close> and the smaller \<open>sensor_type\<close>.
\<close>

definition ranks_before :: "group_key \<times> event list \<Rightarrow> group_key \<times> event list \<Rightarrow> bool" where
  "ranks_before g h \<longleftrightarrow>
     length (snd g) > length (snd h) \<or>
     (length (snd g) = length (snd h) \<and>
        (fst (fst g) < fst (fst h) \<or>
         (fst (fst g) = fst (fst h) \<and> snd (fst g) < snd (fst h))))"

text \<open>
  Control leaves a function by returning a value, by \<open>sys.exit\<close> with a status, or by
  an exception that nothing catches. What a function prints is kept as the list of the
  strings handed to \<open>print\<close> (on standard output or standard error) and to \<open>input\<close>
  (the prompt), in order.
\<close>

datatype 'a control = Returned 'a | Exit int | Raised error

datatype console_output = Stdout string | Stderr string | Prompt string

record 'a run =
  outcome :: "'a control"
  printed :: "console_output list"

text \<open>What a call of \<open>input\<close> meets: a line typed by the user, or an interrupt.\<close>

datatype console_input = Line string | Interrupt

definition apostrophe :: char where
  "apostrophe = CHR 0x27"

definition newline :: char where
  "newline = CHR 0x0A"

text \<open>
  The built-ins \<open>str.strip\<close> and \<open>int\<close> work on Unicode text (white space and
  decimal digits of every script). They are taken as parameters: what \<open>strip\<close> makes
  of a line, and what \<open>int\<close> makes of a string, \<open>None\<close> standing for \<open>ValueError\<close>.
\<close>

record builtins =
  strip :: "string \<Rightarrow> string"
  py_int :: "string \<Rightarrow> int option"

text \<open>
  \<open>choice.lower() == 'q'\<close>: lowering the letters \<open>A\<close> to \<open>Z\<close> decides this comparison,
  since \<open>Q\<close> is the only character other than \<open>q\<close> whose lower case is \<open>q\<close>, and the
  bytes of a character outside ASCII are all above 127.
\<close>

definition ascii_lower :: "char \<Rightarrow> char" where
  "ascii_lower c =
     (let n = (of_char c :: nat) in if 65 \<le> n \<and> n \<le> 90 then char_of (n + 32) else c)"

definition lower :: "string \<Rightarrow> string" where
  "lower s = map ascii_lower s"

definition prompt_text :: "aggregation \<Rightarrow> string" where
  "prompt_text sources =
     [newline] @ ''Select a log source (1-'' @ str_nat (length sources) @ '') or 'q' to quit: ''"

definition selected_text :: "string \<Rightarrow> string \<Rightarrow> string" where
  "selected_text sensor_id sensor_type =
     [newline] @ ''Selected: sensor_id='' @ [apostrophe] @ sensor_id @ [apostrophe] @
     '' sensor_type='' @ [apostrophe] @ sensor_type @ [apostrophe]"

text \<open>
  The loop \<open>while True\<close> of \<open>select_log_source\<close>, over what the console will deliver.
  When nothing is left to read, \<open>input\<close> raises \<open>EOFError\<close>, which the function does
  not catch.
\<close>

fun prompt_loop ::
  "builtins \<Rightarrow> aggregation \<Rightarrow> console_input list \<Rightarrow> console_output list \<Rightarrow> group_key run" where
  "prompt_loop bi sources [] out =
     \<lparr>outcome = Raised (Error ''EOFError''), printed = out @ [Prompt (prompt_text sources)]\<rparr>"
| "prompt_loop bi sources (Interrupt # inputs) out =
     \<lparr>outcome = Exit 0,
      printed = out @ [Prompt (prompt_text sources), Stdout ([newline] @ ''Exiting.'')]\<rparr>"
| "prompt_loop bi sources (Line l # inputs) out =
     (let choice = strip bi l; out1 = out @ [Prompt (prompt_text sources)] in
      if lower choice = ''q'' then \<lparr>outcome = Exit 0, printed = out1 @ [Stdout ''Exiting.'']\<rparr>
      else
        (case py_int bi choice of
           None \<Rightarrow>
             prompt_loop bi sources inputs
               (out1 @ [Stdout ''Please enter a valid number or 'q' to quit''])
         | Some choice_num \<Rightarrow>
             if 1 \<le> choice_num \<and> choice_num \<le> int (length sources) then
               (case fst (sources ! nat (choice_num - 1)) of
                  (sensor_id, sensor_type) \<Rightarrow>
                    \<lparr>outcome = Returned (sensor_id, sensor_type),
                     printed = out1 @ [Stdout (selected_text sensor_id sensor_type)]\<rparr>)
             else
               prompt_loop bi sources inputs
                 (out1 @ [Stdout (''Please enter a number between 1 and '' @
                                  str_nat (length sources))])))"

definition select_log_source :: "builtins \<Rightarrow> aggregation \<Rightarrow> console_input list \<Rightarrow> group_key run" where
  "select_log_source bi aggregated inputs =
     (let sources = sorted_sources aggregated in
      if sources = [] then \<lparr>outcome = Exit 1, printed = [Stderr ''No log sources found.'']\<rparr>
      else prompt_loop bi sources inputs [])"

text \<open>
  The formats \<open>{idx:3d}\<close> (right-aligned in three columns) and \<open>{count:,}\<close> (groups
  of three digits separated by commas) of the printed lines.
\<close>

definition fmt_3d :: "nat \<Rightarrow> string" where
  "fmt_3d n = replicate (3 - length (str_nat n)) CHR '' '' @ str_nat n"

fun fmt_comma :: "nat \<Rightarrow> string" where
  "fmt_comma n =
     (if n < 1000 then str_nat n
      else fmt_comma (n div 1000) @ '','' @
           replicate (3 - length (str_nat (n mod 1000))) CHR ''0'' @ str_nat (n mod 1000))"

declare fmt_comma.simps [simp del]

fun source_lines :: "nat \<Rightarrow> aggregation \<Rightarrow> console_output list" where
  "source_lines idx [] = []"
| "source_lines idx (((sensor_id, sensor_type), events) # sources) =
     Stdout (fmt_3d idx @ ''. sensor_id='' @ [apostrophe] @ sensor_id @ [apostrophe] @
             '' sensor_type='' @ [apostrophe] @ sensor_type @ [apostrophe] @
             '' - '' @ fmt_comma (length events) @ '' events'')
     # source_lines (idx + 1) sources"

definition display_aggregated_sources :: "aggregation \<Rightarrow> console_output list" where
  "display_aggregated_sources aggregated =
     [Stdout ([newline] @ replicate 80 CHR ''=''),
      Stdout ''Available Log Sources (sensor_id, sensor_type):'',
      Stdout (replicate 80 CHR ''='')] @
     source_lines 1 (sorted_sources aggregated) @
     [Stdout (replicate 80 CHR ''='')]"

section \<open>The exporter\<close>











section \<open>The filter query\<close>

text \<open>
  \<open>s.replace(old, new)\<close>: every occurrence of \<open>old\<close> in \<open>s\<close>, found from left to right
  without overlap, is replaced by \<open>new\<close>; an empty \<open>old\<close> matches before every
  character and at the end.
\<close>

function str_replace :: "string \<Rightarrow> string \<Rightarrow> string \<Rightarrow> string" where
  "str_replace old new [] = (if old = [] then new else [])"
| "str_replace old new (c # cs) =
     (if old = [] then new @ c # str_replace old new cs
      else if take (length old) (c # cs) = old
      then new @ str_replace old new (drop (length old) (c # cs))
      else c # str_replace old new cs)"
  by pat_completeness auto
termination
  by (relation "measure (\<lambda>(old, new, s). length s)") auto

text \<open>Steps 5 of \<open>main\<close>: the query for the selected log source.\<close>

definition filtered_query :: "string \<Rightarrow> string \<Rightarrow> string \<Rightarrow> string" where
  "filtered_query sensor_id sensor_type time_range =
     (let sensor_id_escaped = str_replace [apostrophe] [apostrophe, apostrophe] sensor_id;
          sensor_type_escaped = str_replace [apostrophe] [apostrophe, apostrophe] sensor_type
      in ''FROM generic WHERE sensor_id='' @ [apostrophe] @ sensor_id_escaped @ [apostrophe] @
         '' AND sensor_type='' @ [apostrophe] @ sensor_type_escaped @ [apostrophe] @
         '' EARLIEST='' @ time_range)"

text \<open>Doubling every single quote, in the specification's words.\<close>

fun double_quotes :: "string \<Rightarrow> string" where
  "double_quotes [] = []"
| "double_quotes (c # cs) =
     (if c = CHR 0x27 then CHR 0x27 # CHR 0x27 # double_quotes cs else c # double_quotes cs)"

section \<open>The validator (\<open>validate_parser.py\<close>)\<close>











section \<open>Auxiliary predicates and fixtures\<close>

text \<open>
  The invariant of the pager's loop, used in the induction over its unfolding, and the
  invariant of the aggregator's loop after the events \<open>E\<close> have been processed.
\<close>

definition chain_post ::
  "('s \<Rightarrow> pyval \<Rightarrow> (error + event_query_results list) \<times> 's) \<Rightarrow> 's \<Rightarrow> pyval \<Rightarrow> event list
     \<Rightarrow> (error + event list) \<times> 's \<Rightarrow> bool" where
  "chain_post fetch s c acc y \<longleftrightarrow>
     (\<forall>rs s'. y = (Inr rs, s') \<longrightarrow>
        (\<exists>ps. page_chain fetch s c ps s' \<and> rs = acc @ concat (map batch_rows ps)))"

definition agg_inv :: "event list \<Rightarrow> aggregation \<Rightarrow> bool" where
  "agg_inv E T \<longleftrightarrow>
     distinct (map fst T) \<and> set (map fst T) = group_key ` set E \<and>
     map snd T = map (\<lambda>k. filter (\<lambda>e. group_key e = k) E) (map fst T)"

text \<open>
  Concrete events, a file system on which nothing fails, an empty one, and one on which
  no path can be examined.
\<close>

definition zero_id_event :: event where
  "zero_id_event = [''sensor_id'' \<mapsto> PInt 0, ''sensor_type'' \<mapsto> PStr ''t1'']"

definition seven_id_event :: event where
  "seven_id_event = [''sensor_id'' \<mapsto> PInt 7]"

definition false_id_event :: event where
  "false_id_event = [''sensor_id'' \<mapsto> PBool False, ''sensor_type'' \<mapsto> PStr ''t2'']"






definition is_prompt :: "console_output \<Rightarrow> bool" where
  "is_prompt p = (case p of Prompt t \<Rightarrow> True | _ \<Rightarrow> False)"

section \<open>The pager: proofs\<close>

lemma extend_rows_batch_rows: "extend_rows all_rows result_list = all_rows @ batch_rows result_list"
  by (induction result_list arbitrary: all_rows)
     (auto simp: batch_rows_def rows_of_def split: option.splits)

lemma page_chain_paginate:
  "page_chain fetch s c ps s' \<Longrightarrow>
   paginate fetch s c acc = Some (Inr (acc @ concat (map batch_rows ps)), s')"
proof (induction ps arbitrary: s c acc)
  case Nil
  then show ?case by (simp add: paginate.simps)
next
  case (Cons p ps)
  then show ?case
    by (subst paginate.simps) (auto simp: extend_rows_batch_rows split: prod.splits sum.splits)
qed

lemma paginate_step:
  assumes ih: "\<And>fetch s c acc y. pg fetch s c acc = Some y \<Longrightarrow> chain_post fetch s c acc y"
    and body: "(if truthy c then
        (case fetch s c of
           (Inl e, s') \<Rightarrow> Some (Inl e, s')
         | (Inr page_result_list, s') \<Rightarrow>
             pg fetch s' (get_next_page page_result_list)
               (extend_rows acc page_result_list))
      else Some (Inr acc, s)) = Some y"
  shows "chain_post fetch s c acc y"
proof (cases "truthy c")
  case False
  with body have y: "y = (Inr acc, s)" by simp
  have "page_chain fetch s c [] s \<and> acc = acc @ concat (map batch_rows [])"
    using False by simp
  with y show ?thesis unfolding chain_post_def by blast
next
  case True
  obtain a s1 where f: "fetch s c = (a, s1)" by (cases "fetch s c")
  show ?thesis
  proof (cases a)
    case (Inl e)
    with True f body show ?thesis by (auto simp: chain_post_def)
  next
    case (Inr p)
    with True f body have "pg fetch s1 (get_next_page p) (extend_rows acc p) = Some y"
      by simp
    from ih[OF this] have ih': "chain_post fetch s1 (get_next_page p) (extend_rows acc p) y" .
    show ?thesis unfolding chain_post_def
    proof (intro allI impI)
      fix rs s' assume "y = (Inr rs, s')"
      with ih' obtain ps where
        ps: "page_chain fetch s1 (get_next_page p) ps s'"
            "rs = extend_rows acc p @ concat (map batch_rows ps)"
        unfolding chain_post_def by blast
      from ps True f Inr
      have "page_chain fetch s c (p # ps) s' \<and> rs = acc @ concat (map batch_rows (p # ps))"
        by (simp add: extend_rows_batch_rows)
      then show "\<exists>ps. page_chain fetch s c ps s' \<and> rs = acc @ concat (map batch_rows ps)"
        by blast
    qed
  qed
qed

lemma paginate_chain_post:
  "paginate fetch s c acc = Some y \<Longrightarrow> chain_post fetch s c acc y"
  by (rule paginate.raw_induct[where P = chain_post]) (rule paginate_step)

lemma paginate_iff:
  "paginate fetch s c acc = Some (Inr rs, s') \<longleftrightarrow>
   (\<exists>ps. page_chain fetch s c ps s' \<and> rs = acc @ concat (map batch_rows ps))"
  using paginate_chain_post[of fetch s c acc "(Inr rs, s')"]
        page_chain_paginate[of fetch s c _ s' acc]
  unfolding chain_post_def by blast

lemma two_page_mock_run:
  "query_events (two_page_mock r1 r2 r3 r4 r5) () query tenant_id mx_rows =
     Some (Inr [r1, r2, r3, r4, r5], ())"
  by (simp add: query_events_def two_page_mock_def paginate.simps)

text \<open>
  Claim C1. The pager returns rows exactly when the client answers the initial query and
  then, followed cursor by cursor, a finite sequence of page batches of which the last
  carries no truthy cursor; the rows returned are then the rows of the initial batch
  followed by the rows of every page batch, in the order of arrival. Against the
  two-page mock (two rows and the cursor \<open>"X"\<close>, then three rows and no cursor) it
  returns the five rows in page order.
\<close>

theorem query_events_accumulates_pages:
  "(query_events service s query tenant_id mx_rows = Some (Inr all_rows, s') \<longleftrightarrow>
      (\<exists>result_list pages s1.
         event_query service tenant_id s query (query_options mx_rows) ''export_unparsed_events''
           = (Inr result_list, s1) \<and>
         page_chain (event_page service tenant_id) s1 (get_next_page result_list) pages s' \<and>
         all_rows = concat (map batch_rows (result_list # pages)))) \<and>
   query_events (two_page_mock r1 r2 r3 r4 r5) () query tenant_id mx_rows =
     Some (Inr [r1, r2, r3, r4, r5], ())"
proof -
  obtain a s1 where q:
    "event_query service tenant_id s query (query_options mx_rows) ''export_unparsed_events'' = (a, s1)"
    by (cases "event_query service tenant_id s query (query_options mx_rows) ''export_unparsed_events''")
  have "query_events service s query tenant_id mx_rows = Some (Inr all_rows, s') \<longleftrightarrow>
      (\<exists>result_list pages s1.
         event_query service tenant_id s query (query_options mx_rows) ''export_unparsed_events''
           = (Inr result_list, s1) \<and>
         page_chain (event_page service tenant_id) s1 (get_next_page result_list) pages s' \<and>
         all_rows = concat (map batch_rows (result_list # pages)))"
  proof (cases a)
    case (Inl e)
    with q show ?thesis by (simp add: query_events_def)
  next
    case (Inr b)
    with q show ?thesis
      by (simp add: query_events_def paginate_iff extend_rows_batch_rows)
  qed
  with two_page_mock_run show ?thesis by blast
qed

lemma get_next_page_find:
  "get_next_page rs = (case find has_truthy_next rs of None \<Rightarrow> PNone | Some r \<Rightarrow> next_value r)"
  by (induction rs) (auto simp: has_truthy_next_def next_value_def split: option.splits)

lemma get_next_page_append:
  "get_next_page (pre @ post) =
     (if list_ex has_truthy_next pre then get_next_page pre else get_next_page post)"
  by (induction pre) (auto simp: has_truthy_next_def split: option.splits)

text \<open>
  Claim C10. Within one batch, \<open>get_next_page\<close> returns the \<open>next\<close> value of the first
  result, in list order, whose \<open>next\<close> attribute exists and is truthy, and \<open>None\<close> when
  there is no such result. The results after that one play no part: for a batch split
  in two, the later part is consulted only when no result of the earlier part has a
  truthy \<open>next\<close>. The value returned is one cursor, so one cursor at most is followed
  for each batch.
\<close>

theorem get_next_page_first_cursor:
  "get_next_page events_results =
     (case find has_truthy_next events_results of None \<Rightarrow> PNone | Some r \<Rightarrow> next_value r) \<and>
   get_next_page (earlier @ later) =
     (if list_ex has_truthy_next earlier then get_next_page earlier else get_next_page later)"
  using get_next_page_find get_next_page_append by blast

section \<open>The aggregator: proofs\<close>

lemma keys_append_to_group:
  "map fst (append_to_group T k e) = (if k \<in> set (map fst T) then map fst T else map fst T @ [k])"
proof (induction T)
  case Nil
  show ?case by simp
next
  case (Cons g T)
  obtain k' es where g: "g = (k', es)" by (cases g)
  show ?case using Cons unfolding g by (cases "k' = k") auto
qed

lemma snd_append_to_group:
  "distinct (map fst T) \<Longrightarrow>
   map snd (append_to_group T k e) =
     (if k \<in> set (map fst T) then map (\<lambda>g. if fst g = k then snd g @ [e] else snd g) T
      else map snd T @ [[e]])"
proof (induction T)
  case Nil
  show ?case by simp
next
  case (Cons g T)
  obtain k' es where g: "g = (k', es)" by (cases g)
  show ?case
  proof (cases "k' = k")
    case True
    with Cons.prems g have "k \<notin> set (map fst T)" by simp
    then have "map (\<lambda>g. if fst g = k then snd g @ [e] else snd g) T = map snd T"
      by (intro map_cong) auto
    with True show ?thesis unfolding g by simp
  next
    case False
    with Cons show ?thesis unfolding g by simp
  qed
qed

lemma aggregate_snoc:
  "aggregate_by_sensor (E @ [e]) = append_to_group (aggregate_by_sensor E) (group_key e) e"
  by (simp add: aggregate_by_sensor_def)

lemma agg_inv_step:
  assumes "agg_inv E T"
  shows "agg_inv (E @ [e]) (append_to_group T (group_key e) e)"
proof -
  let ?k = "group_key e"
  from assms have d: "distinct (map fst T)" and ks: "set (map fst T) = group_key ` set E"
    and gs: "map snd T = map (\<lambda>k. filter (\<lambda>e. group_key e = k) E) (map fst T)"
    by (auto simp: agg_inv_def)
  from gs have g: "\<And>x. x \<in> set T \<Longrightarrow> snd x = filter (\<lambda>e. group_key e = fst x) E"
    by (simp add: map_eq_conv)
  show ?thesis
  proof (cases "?k \<in> set (map fst T)")
    case True
    have "map snd (append_to_group T ?k e) =
            map (\<lambda>k. filter (\<lambda>e. group_key e = k) (E @ [e])) (map fst T)"
      using True d g by (simp add: snd_append_to_group)
    with True d ks show ?thesis
      by (auto simp: agg_inv_def keys_append_to_group)
  next
    case False
    with ks have "?k \<notin> group_key ` set E" by simp
    then have "filter (\<lambda>e'. group_key e' = ?k) E = []"
      unfolding filter_empty_conv by (metis imageI)
    with False gs have "map snd (append_to_group T ?k e) =
            map (\<lambda>k. filter (\<lambda>e. group_key e = k) (E @ [e])) (map fst T @ [?k])"
      using d g by (auto simp: snd_append_to_group)
    with False d ks show ?thesis
      by (auto simp: agg_inv_def keys_append_to_group)
  qed
qed

lemma agg_inv_aggregate: "agg_inv E (aggregate_by_sensor E)"
proof (induction E rule: rev_induct)
  case Nil
  show ?case by (simp add: agg_inv_def aggregate_by_sensor_def)
next
  case (snoc e E)
  then show ?case by (simp only: aggregate_snoc agg_inv_step)
qed

lemma mset_concat_groups:
  "distinct ks \<Longrightarrow>
   mset (concat (map (\<lambda>k. filter (\<lambda>e. f e = k) E) ks)) = filter_mset (\<lambda>e. f e \<in> set ks) (mset E)"
proof (induction ks)
  case Nil
  show ?case by simp
next
  case (Cons k ks)
  then have "k \<notin> set ks" by simp
  then have "filter_mset (\<lambda>e. f e = k) (mset E) + filter_mset (\<lambda>e. f e \<in> set ks) (mset E)
      = filter_mset (\<lambda>e. f e \<in> set (k # ks)) (mset E)"
    by (intro multiset_eqI) auto
  with Cons show ?case by simp
qed

lemma length_filter_key:
  "distinct (map fst T) \<Longrightarrow> k \<in> set (map fst T) \<Longrightarrow> length (filter (\<lambda>g. k = fst g) T) = 1"
proof (induction T)
  case Nil
  then show ?case by simp
next
  case (Cons g T)
  show ?case
  proof (cases "k = fst g")
    case True
    with Cons.prems have "k \<notin> fst ` set T" by simp
    then have "filter (\<lambda>g. k = fst g) T = []"
      unfolding filter_empty_conv by (metis imageI)
    with True show ?thesis by simp
  next
    case False
    with Cons show ?thesis by simp
  qed
qed

lemma group_membership_count:
  assumes "distinct (map fst T)" and "set (map fst T) = f ` set E"
    and "map snd T = map (\<lambda>k. filter (\<lambda>e. f e = k) E) (map fst T)"
  shows "length (filter (\<lambda>g. e \<in> set (snd g)) T) = (if e \<in> set E then 1 else 0)"
proof -
  from assms(3) have g: "\<And>x. x \<in> set T \<Longrightarrow> snd x = filter (\<lambda>e. f e = fst x) E"
    by (simp add: map_eq_conv)
  have "filter (\<lambda>g. e \<in> set (snd g)) T = filter (\<lambda>g. e \<in> set E \<and> f e = fst g) T"
    by (rule filter_cong) (auto simp: g)
  also have "length \<dots> = (if e \<in> set E then 1 else 0)"
  proof (cases "e \<in> set E")
    case False
    then show ?thesis by simp
  next
    case True
    then have "f e \<in> set (map fst T)" using assms(2) by simp
    with assms(1) have "length (filter (\<lambda>g. f e = fst g) T) = 1"
      by (rule length_filter_key)
    with True show ?thesis by simp
  qed
  finally show ?thesis .
qed

lemma event_in_its_group:
  assumes "e \<in> set E"
  shows "map_of (aggregate_by_sensor E) (group_key e) = Some (filter (\<lambda>x. group_key x = group_key e) E)"
proof -
  let ?T = "aggregate_by_sensor E"
  have "agg_inv E ?T" by (rule agg_inv_aggregate)
  then have d: "distinct (map fst ?T)" and ks: "set (map fst ?T) = group_key ` set E"
    and gs: "map snd ?T = map (\<lambda>k. filter (\<lambda>e. group_key e = k) E) (map fst ?T)"
    by (simp_all add: agg_inv_def)
  from assms ks have "group_key e \<in> fst ` set ?T" by simp
  then obtain g where g: "g \<in> set ?T" "fst g = group_key e" by auto
  from gs g(1) have "snd g = filter (\<lambda>x. group_key x = fst g) E"
    by (simp add: map_eq_conv)
  with g have "(group_key e, filter (\<lambda>x. group_key x = group_key e) E) \<in> set ?T"
    by (metis prod.collapse)
  with d show ?thesis by simp
qed

text \<open>
  Claim C2. The table built by \<open>aggregate_by_sensor\<close> partitions the events exactly:
  its keys are distinct; the group stored under a key is the list of the events with
  that key, in their input order; no group is empty; the groups together hold the events
  of the input, each as often as the input does; and an event of the input belongs to
  exactly one group (an event that is not in the input, to none).
\<close>

theorem aggregate_by_sensor_partitions:
  "distinct (map fst (aggregate_by_sensor E)) \<and>
   map snd (aggregate_by_sensor E) =
     map (\<lambda>k. filter (\<lambda>e. group_key e = k) E) (map fst (aggregate_by_sensor E)) \<and>
   [] \<notin> set (map snd (aggregate_by_sensor E)) \<and>
   mset (concat (map snd (aggregate_by_sensor E))) = mset E \<and>
   length (filter (\<lambda>g. e \<in> set (snd g)) (aggregate_by_sensor E)) = (if e \<in> set E then 1 else 0)"
proof -
  let ?T = "aggregate_by_sensor E"
  have inv: "agg_inv E ?T" by (rule agg_inv_aggregate)
  then have d: "distinct (map fst ?T)" and ks: "set (map fst ?T) = group_key ` set E"
    and gs: "map snd ?T = map (\<lambda>k. filter (\<lambda>e. group_key e = k) E) (map fst ?T)"
    by (simp_all add: agg_inv_def)
  have ne: "[] \<notin> set (map snd ?T)"
  proof
    assume "[] \<in> set (map snd ?T)"
    then have "[] \<in> (\<lambda>k. filter (\<lambda>e. group_key e = k) E) ` set (map fst ?T)"
      unfolding gs by (simp only: set_map)
    then obtain k where k: "k \<in> set (map fst ?T)" "filter (\<lambda>e. group_key e = k) E = []"
      by (metis (mono_tags, lifting) imageE)
    from k(1) ks obtain e' where "e' \<in> set E" "group_key e' = k" by auto
    with k(2) show False by (simp add: filter_empty_conv)
  qed
  have "mset (concat (map snd ?T)) = filter_mset (\<lambda>e. group_key e \<in> set (map fst ?T)) (mset E)"
    unfolding gs using d by (rule mset_concat_groups)
  also have "\<dots> = mset E" unfolding ks by (simp add: filter_mset_eq_conv)
  finally have m: "mset (concat (map snd ?T)) = mset E" .
  from d gs ne m group_membership_count[OF d ks gs] show ?thesis by blast
qed

lemma fst_group_key:
  "fst (group_key event) =
     (if truthy (dict_get event ''sensor_id'') then py_str (dict_get event ''sensor_id'') else ''unknown'')"
  by (auto simp: group_key_def py_or_def Let_def)

lemma snd_group_key:
  "snd (group_key event) =
     (if truthy (dict_get event ''sensor_type'') then py_str (dict_get event ''sensor_type'') else ''unknown'')"
  by (auto simp: group_key_def py_or_def Let_def)

text \<open>
  What the aggregator does where the fallback \<open>or 'unknown'\<close> and a test for \<open>None\<close>
  agree: a field that is absent or null gives \<open>"unknown"\<close>, a field whose value is truthy
  gives the string representation of that value (the value itself when it is a string),
  and the event is stored in the group of the key so formed.
\<close>

lemma group_key_fields:
  "(event ''sensor_id'' = None \<or> event ''sensor_id'' = Some PNone \<longrightarrow>
      fst (group_key event) = ''unknown'') \<and>
   (event ''sensor_type'' = None \<or> event ''sensor_type'' = Some PNone \<longrightarrow>
      snd (group_key event) = ''unknown'') \<and>
   (event ''sensor_id'' = Some v \<and> truthy v \<longrightarrow> fst (group_key event) = py_str v) \<and>
   (event ''sensor_type'' = Some w \<and> truthy w \<longrightarrow> snd (group_key event) = py_str w) \<and>
   (event \<in> set events \<longrightarrow>
      (\<exists>es. (group_key event, es) \<in> set (aggregate_by_sensor events) \<and> event \<in> set es))"
proof -
  have "event \<in> set events \<longrightarrow>
      (\<exists>es. (group_key event, es) \<in> set (aggregate_by_sensor events) \<and> event \<in> set es)"
  proof
    assume e: "event \<in> set events"
    from event_in_its_group[OF e]
    have "(group_key event, filter (\<lambda>x. group_key x = group_key event) events)
            \<in> set (aggregate_by_sensor events)"
      by (rule map_of_SomeD)
    moreover from e have "event \<in> set (filter (\<lambda>x. group_key x = group_key event) events)"
      by simp
    ultimately show "\<exists>es. (group_key event, es) \<in> set (aggregate_by_sensor events) \<and> event \<in> set es"
      by blast
  qed
  then show ?thesis
    by (auto simp: fst_group_key snd_group_key dict_get_def)
qed

lemma group_key_fields_example:
  "seven_id_event ''sensor_id'' = Some (PInt 7) \<and> truthy (PInt 7) \<and>
   seven_id_event ''sensor_type'' = None \<and>
   seven_id_event \<in> set [zero_id_event, seven_id_event] \<and>
   group_key seven_id_event = (''7'', ''unknown'') \<and>
   (\<exists>es. ((''7'', ''unknown''), es) \<in> set (aggregate_by_sensor [zero_id_event, seven_id_event])
         \<and> seven_id_event \<in> set es)"
proof -
  have h: "seven_id_event ''sensor_id'' = Some (PInt 7)" "truthy (PInt 7)"
    "seven_id_event ''sensor_type'' = None" "seven_id_event \<in> set [zero_id_event, seven_id_event]"
    by (simp_all add: seven_id_event_def)
  have s: "py_str (PInt 7) = ''7''"
    by (simp add: str_int_def str_nat.simps digit_char_def)
  from group_key_fields[of seven_id_event "PInt 7" "PInt 7" "[zero_id_event, seven_id_event]"] h s
  have k1: "fst (group_key seven_id_event) = ''7''"
    and k2: "snd (group_key seven_id_event) = ''unknown''"
    and g: "\<exists>es. (group_key seven_id_event, es) \<in> set (aggregate_by_sensor [zero_id_event, seven_id_event])
         \<and> seven_id_event \<in> set es"
    by simp_all
  from k1 k2 have k: "group_key seven_id_event = (''7'', ''unknown'')"
    by (simp add: prod_eq_iff)
  from g have "\<exists>es. ((''7'', ''unknown''), es) \<in> set (aggregate_by_sensor [zero_id_event, seven_id_event])
         \<and> seven_id_event \<in> set es"
    unfolding k .
  with h k show ?thesis by blast
qed

text \<open>
  Claim C3. The aggregator is to map an absent or null \<open>sensor_id\<close> or \<open>sensor_type\<close>
  to \<open>"unknown"\<close> and every present value that is neither null nor a string to its
  string representation. The comments of the source say as much (\<open>Handle None values and
  missing keys\<close>, \<open>Convert to string in case they're not already\<close>), and the test
  \<open>is not None\<close> that follows can never fail. The event whose \<open>sensor_id\<close> is the integer
  0 and whose \<open>sensor_type\<close> is \<open>t1\<close> shows that the code does otherwise: 0 is present,
  not null and not a string, its string representation is \<open>"0"\<close>, and the event is
  grouped under \<open>("unknown", "t1")\<close>, because \<open>or\<close> replaces every falsy value.
\<close>

theorem group_key_zero_sensor_id:
  "zero_id_event ''sensor_id'' = Some (PInt 0) \<and>
   py_str (PInt 0) = ''0'' \<and>
   group_key zero_id_event = (''unknown'', ''t1'') \<and>
   fst (group_key zero_id_event) \<noteq> py_str (PInt 0) \<and>
   aggregate_by_sensor [zero_id_event] = [((''unknown'', ''t1''), [zero_id_event])]"
  by (simp add: aggregate_by_sensor_def prod_eq_iff fst_group_key snd_group_key zero_id_event_def
        dict_get_def str_int_def str_nat.simps digit_char_def)

text \<open>
  Claim C9. A field \<open>sensor_id\<close> or \<open>sensor_type\<close> that is present but falsy gives the
  key \<open>"unknown"\<close> for that field; the empty string, the integer 0 and \<open>False\<close> are
  falsy; and the event is stored in the group of that key, which holds the events of
  the same key in input order.
\<close>

theorem falsy_field_grouped_as_unknown:
  "(event ''sensor_id'' = Some v \<and> \<not> truthy v \<longrightarrow> fst (group_key event) = ''unknown'') \<and>
   (event ''sensor_type'' = Some w \<and> \<not> truthy w \<longrightarrow> snd (group_key event) = ''unknown'') \<and>
   \<not> truthy (PStr []) \<and> \<not> truthy (PInt 0) \<and> \<not> truthy (PBool False) \<and>
   (event \<in> set events \<longrightarrow>
      map_of (aggregate_by_sensor events) (group_key event) =
        Some (filter (\<lambda>x. group_key x = group_key event) events))"
  using event_in_its_group[of event events]
  by (auto simp: fst_group_key snd_group_key dict_get_def)

theorem falsy_field_grouped_as_unknown_witness:
  "false_id_event ''sensor_id'' = Some (PBool False) \<and> \<not> truthy (PBool False) \<and>
   false_id_event \<in> set [seven_id_event, false_id_event] \<and>
   fst (group_key false_id_event) = ''unknown'' \<and>
   map_of (aggregate_by_sensor [seven_id_event, false_id_event]) (group_key false_id_event) =
     Some (filter (\<lambda>x. group_key x = group_key false_id_event) [seven_id_event, false_id_event])"
proof -
  have h: "false_id_event ''sensor_id'' = Some (PBool False)" "\<not> truthy (PBool False)"
    "false_id_event \<in> set [seven_id_event, false_id_event]"
    by (simp_all add: false_id_event_def)
  from falsy_field_grouped_as_unknown[of false_id_event "PBool False" "PNone"
         "[seven_id_event, false_id_event]"] h
  show ?thesis by blast
qed

section \<open>The selector: proofs\<close>

lemma ranks_before_sort_key: "ranks_before g h \<longleftrightarrow> source_sort_key g < source_sort_key h"
  by (auto simp: ranks_before_def source_sort_key_def less_prod_def)

lemma source_sort_key_inj:
  assumes "distinct (map fst aggregated)"
  shows "inj_on source_sort_key (set aggregated)"
proof (rule inj_onI)
  fix g h
  assume gh: "g \<in> set aggregated" "h \<in> set aggregated" "source_sort_key g = source_sort_key h"
  then have "fst g = fst h" by (simp add: source_sort_key_def prod_eq_iff)
  moreover from assms have "inj_on fst (set aggregated)" by (simp add: distinct_map)
  ultimately show "g = h" using gh(1,2) by (auto dest: inj_onD)
qed

lemma sorted_sources_strict:
  assumes "distinct (map fst aggregated)"
  shows "sorted_wrt ranks_before (sorted_sources aggregated)"
proof -
  let ?xs = "sorted_sources aggregated"
  have s: "sorted (map source_sort_key ?xs)" by (simp add: sorted_sources_def)
  from assms have "distinct aggregated" by (simp add: distinct_map)
  then have "distinct ?xs" by (simp add: sorted_sources_def)
  moreover have "inj_on source_sort_key (set ?xs)"
    using source_sort_key_inj[OF assms] by (simp add: sorted_sources_def)
  ultimately have "distinct (map source_sort_key ?xs)" by (simp add: distinct_map)
  with s have "sorted_wrt (<) (map source_sort_key ?xs)" by (simp add: strict_sorted_iff)
  moreover have "ranks_before = (\<lambda>x y. source_sort_key x < source_sort_key y)"
    by (intro ext) (rule ranks_before_sort_key)
  ultimately show ?thesis by (simp add: sorted_wrt_map)
qed

text \<open>
  Claim C4. On a table with distinct keys, the list that the selector ranks is the table
  rearranged so that every group ranks before all the groups after it, where a group
  ranks before another when it has more events, or the same number and the smaller
  \<open>sensor_id\<close>, or the same number, the same \<open>sensor_id\<close> and the smaller
  \<open>sensor_type\<close>. This ranking is a strict total order on groups with different keys:
  irreflexive, transitive, and deciding between any two of them.
\<close>

theorem sorted_sources_total_order:
  "distinct (map fst aggregated) \<Longrightarrow>
   sorted_wrt ranks_before (sorted_sources aggregated) \<and>
   mset (sorted_sources aggregated) = mset aggregated \<and>
   \<not> ranks_before g g \<and>
   (ranks_before g h \<longrightarrow> ranks_before h k \<longrightarrow> ranks_before g k) \<and>
   (fst g \<noteq> fst h \<longrightarrow> ranks_before g h \<or> ranks_before h g)"
proof -
  assume d: "distinct (map fst aggregated)"
  have t: "fst g \<noteq> fst h \<longrightarrow> ranks_before g h \<or> ranks_before h g"
  proof
    assume "fst g \<noteq> fst h"
    then have "source_sort_key g \<noteq> source_sort_key h"
      by (auto simp: source_sort_key_def prod_eq_iff)
    then show "ranks_before g h \<or> ranks_before h g" unfolding ranks_before_sort_key by auto
  qed
  have tr: "ranks_before g h \<longrightarrow> ranks_before h k \<longrightarrow> ranks_before g k"
    unfolding ranks_before_sort_key by auto
  have ir: "\<not> ranks_before g g" unfolding ranks_before_sort_key by simp
  have m: "mset (sorted_sources aggregated) = mset aggregated" by (simp add: sorted_sources_def)
  from sorted_sources_strict[OF d] m ir tr t show ?thesis by blast
qed

theorem sorted_sources_total_order_witness:
  "distinct (map fst [((''b'', ''t''), [zero_id_event]), ((''a'', ''u''), [seven_id_event]),
                      ((''a'', ''t''), [seven_id_event]), ((''c'', ''t''), [zero_id_event, seven_id_event])]) \<and>
   sorted_wrt ranks_before
     (sorted_sources [((''b'', ''t''), [zero_id_event]), ((''a'', ''u''), [seven_id_event]),
                      ((''a'', ''t''), [seven_id_event]), ((''c'', ''t''), [zero_id_event, seven_id_event])]) \<and>
   ranks_before ((''c'', ''t''), [zero_id_event, seven_id_event]) ((''a'', ''t''), [seven_id_event]) \<and>
   ranks_before ((''a'', ''t''), [seven_id_event]) ((''a'', ''u''), [seven_id_event]) \<and>
   ranks_before ((''c'', ''t''), [zero_id_event, seven_id_event]) ((''a'', ''u''), [seven_id_event])"
proof -
  have d: "distinct (map fst [((''b'', ''t''), [zero_id_event]), ((''a'', ''u''), [seven_id_event]),
                      ((''a'', ''t''), [seven_id_event]), ((''c'', ''t''), [zero_id_event, seven_id_event])])"
    by simp
  have r1: "ranks_before ((''c'', ''t''), [zero_id_event, seven_id_event]) ((''a'', ''t''), [seven_id_event])"
    by (simp add: ranks_before_def)
  have r2: "ranks_before ((''a'', ''t''), [seven_id_event]) ((''a'', ''u''), [seven_id_event])"
    by (simp add: ranks_before_def)
  from sorted_sources_total_order[OF d,
         of "((''c'', ''t''), [zero_id_event, seven_id_event])" "((''a'', ''t''), [seven_id_event])"
            "((''a'', ''u''), [seven_id_event])"] d r1 r2
  show ?thesis by blast
qed

text \<open>
  Claim C6. On an empty aggregation table \<open>select_log_source\<close> prints
  \<open>No log sources found.\<close> on standard error and exits with status 1, whatever the
  console would deliver and whatever the built-ins compute; nothing else is printed, and
  no prompt is issued.
\<close>

theorem select_log_source_empty:
  "select_log_source bi [] inputs = \<lparr>outcome = Exit 1, printed = [Stderr ''No log sources found.'']\<rparr> \<and>
   filter is_prompt (printed (select_log_source bi [] inputs)) = []"
  by (simp add: select_log_source_def sorted_sources_def is_prompt_def)

section \<open>The filter query: proofs\<close>

lemma str_replace_apostrophe: "str_replace [CHR 0x27] [CHR 0x27, CHR 0x27] s = double_quotes s"
  by (induction s) auto

text \<open>
  Claim C7. The filter query holds, between the quotes after \<open>sensor_id=\<close> and after
  \<open>sensor_type=\<close>, the two values with every single quote doubled; the value
  \<open>o'brien\<close> is escaped to \<open>o''brien\<close>.
\<close>

theorem filtered_query_doubles_quotes:
  "filtered_query sensor_id sensor_type time_range =
     ''FROM generic WHERE sensor_id='' @ [CHR 0x27] @ double_quotes sensor_id @ [CHR 0x27] @
     '' AND sensor_type='' @ [CHR 0x27] @ double_quotes sensor_type @ [CHR 0x27] @
     '' EARLIEST='' @ time_range \<and>
   str_replace [apostrophe] [apostrophe, apostrophe] (''o'' @ [CHR 0x27] @ ''brien'') =
     ''o'' @ [CHR 0x27, CHR 0x27] @ ''brien''"
  by (simp add: filtered_query_def apostrophe_def str_replace_apostrophe)

section \<open>The exporter: proofs\<close>






section \<open>The validator: proofs\<close>




end
